theory Spec2Isabelle
  imports Main "HOL-Library.Sublist"
begin

section \<open>explode\_bulkprint: a shallow embedding of the script\<close>

text \<open>
  The script walks the outline (bookmark list) of a BulkPrint PDF once. Every top-level
  bookmark is tested against three regular expressions; a details bookmark yields a CSV
  row, a resume bookmark yields a PDF holding the pages up to the next top-level bookmark.

  What the PDF library gives the script is modelled as data: a document is its outline and
  the text of each of its pages, a page object is identified by its index in the document,
  and a destination carries the number that \<open>getDestinationPageNumber\<close> returns for it
  (\<open>-1\<close> when the library cannot resolve it). Strings are lists of characters with
  code points below 256.
  Printing to the console is left out, and so is the set-up before the loop (the input
  files exist, the output directories are made, the CSV header is written).

  An uncaught Python exception ends the whole script. It is the \<open>Inl\<close> branch of every
  result below; for the functions that change the counters or write output it comes with
  the state reached when it was raised, since the rows and files written before it stay
  written.
\<close>

subsection \<open>Python primitives used by the script\<close>

datatype error = IndexError | ValueError

definition newline :: char where
  "newline = CHR 0x0A"

text \<open>\<open>xs[i]\<close>: a negative index counts from the end, anything out of range raises.\<close>

definition py_getitem :: "'a list \<Rightarrow> int \<Rightarrow> error + 'a" where
  "py_getitem xs i =
     (if 0 \<le> i \<and> i < int (length xs) then Inr (xs ! nat i)
      else if i < 0 \<and> - int (length xs) \<le> i then Inr (xs ! nat (int (length xs) + i))
      else Inl IndexError)"

text \<open>\<open>xs.index(v)\<close>: position of the first element equal to \<open>v\<close>, ValueError when absent.\<close>

fun py_index :: "'a list \<Rightarrow> 'a \<Rightarrow> error + nat" where
  "py_index [] v = Inl ValueError"
| "py_index (x # xs) v =
     (if x = v then Inr 0
      else (case py_index xs v of Inl e \<Rightarrow> Inl e | Inr n \<Rightarrow> Inr (Suc n)))"

text \<open>\<open>str.isspace\<close> on the code points below 256.\<close>

definition py_isspace :: "char \<Rightarrow> bool" where
  "py_isspace c \<longleftrightarrow>
     c \<in> set [CHR 0x09, CHR 0x0A, CHR 0x0B, CHR 0x0C, CHR 0x0D,
              CHR 0x1C, CHR 0x1D, CHR 0x1E, CHR 0x1F, CHR 0x20, CHR 0x85, CHR 0xA0]"

text \<open>\<open>s.strip()\<close>.\<close>

definition py_strip :: "string \<Rightarrow> string" where
  "py_strip s = rev (dropWhile py_isspace (rev (dropWhile py_isspace s)))"

text \<open>\<open>s.split(sep)\<close> for a one-character separator: never the empty list.\<close>

fun py_split_on :: "char \<Rightarrow> string \<Rightarrow> string list" where
  "py_split_on sep [] = [[]]"
| "py_split_on sep (c # cs) =
     (if c = sep then [] # py_split_on sep cs
      else (case py_split_on sep cs of
              [] \<Rightarrow> [[c]]
            | l # ls \<Rightarrow> (c # l) # ls))"

text \<open>
  \<open>s.split()\<close>: the maximal runs of non-whitespace characters. The first argument holds
  the current run, reversed.
\<close>

fun split_runs :: "string \<Rightarrow> string \<Rightarrow> string list" where
  "split_runs cur [] = (if cur = [] then [] else [rev cur])"
| "split_runs cur (c # cs) =
     (if py_isspace c then (if cur = [] then split_runs [] cs else rev cur # split_runs [] cs)
      else split_runs (c # cur) cs)"

definition py_split :: "string \<Rightarrow> string list" where
  "py_split s = split_runs [] s"

text \<open>\<open>"{0}".format(n)\<close> for an integer: its decimal digits.\<close>

definition digit_chars :: string where
  "digit_chars = ''0123456789''"

function str_nat :: "nat \<Rightarrow> string" where
  "str_nat n = (if n < 10 then [digit_chars ! n] else str_nat (n div 10) @ [digit_chars ! (n mod 10)])"
  by pat_completeness auto
termination
  by (relation "measure (\<lambda>n. n)") auto

declare str_nat.simps [simp del]

definition str_int :: "int \<Rightarrow> string" where
  "str_int i = (if i < 0 then CHR ''-'' # str_nat (nat (- i)) else str_nat (nat i))"

subsection \<open>The three regular expressions\<close>

text \<open>
  \<open>re.match\<close> anchors at the start of the string only. Each pattern is built from three
  pieces, written in continuation style (the continuation is the rest of the pattern):
  \<open>.*\<close> skips any number of characters other than newline, a literal must be next in the
  string, and \<open>$\<close> holds at the end of the string or just before a newline that ends it.
  A pattern without \<open>$\<close> accepts whatever follows.
\<close>

primrec dot_star :: "(string \<Rightarrow> bool) \<Rightarrow> string \<Rightarrow> bool" where
  "dot_star k [] = k []"
| "dot_star k (c # cs) = (k (c # cs) \<or> (c \<noteq> newline \<and> dot_star k cs))"

definition literal :: "string \<Rightarrow> (string \<Rightarrow> bool) \<Rightarrow> string \<Rightarrow> bool" where
  "literal p k s = (take (length p) s = p \<and> k (drop (length p) s))"

definition end_anchor :: "string \<Rightarrow> bool" where
  "end_anchor s = (s = [] \<or> s = [newline])"

definition any_rest :: "string \<Rightarrow> bool" where
  "any_rest s = True"

text \<open>\<open>re.match(r'.* Candidate Details', title)\<close>\<close>

definition is_candidate_details :: "string \<Rightarrow> bool" where
  "is_candidate_details ttl = dot_star (literal '' Candidate Details'' any_rest) ttl"

text \<open>\<open>re.match(r'.*\.pdf$', title)\<close>\<close>

definition is_resume_ok :: "string \<Rightarrow> bool" where
  "is_resume_ok ttl = dot_star (literal ''.pdf'' end_anchor) ttl"

text \<open>\<open>re.match(r'.*\.pdf \(.*\)$', title)\<close>\<close>

definition is_resume_error :: "string \<Rightarrow> bool" where
  "is_resume_error ttl =
     dot_star (literal ''.pdf ('' (dot_star (literal '')'' end_anchor))) ttl"

subsection \<open>Documents and the state of the run\<close>

datatype destination = Destination (title: string) (page_number: int)

datatype outline_item = Dest destination | Sub "outline_item list"

record document =
  outlines :: "outline_item list"
  pages :: "string list"

record csv_row =
  row_id :: int
  row_title :: string
  first_name :: string
  last_name :: string
  email :: string

text \<open>
  \<open>csv_rows\<close> are the rows written so far, in order; \<open>resume_files\<close> are the files
  written so far, in order, each with its path and the indices of the pages added to it.
\<close>

record state =
  candidate_id :: int
  resume_count :: int
  resume_errors :: int
  csv_rows :: "csv_row list"
  resume_files :: "(string \<times> nat list) list"

text \<open>
  How a stretch of the script ends: with the state it reached, or with an uncaught
  exception and the state reached when it was raised.
\<close>

type_synonym outcome = "(error \<times> state) + state"

definition outcome_state :: "outcome \<Rightarrow> state" where
  "outcome_state r = (case r of Inl (e, s) \<Rightarrow> s | Inr s \<Rightarrow> s)"

definition OUTPUT_DIR :: string where
  "OUTPUT_DIR = ''output''"

definition TITLES :: "string list" where
  "TITLES = [''Mr'', ''Mrs'', ''Ms'', ''Miss'', ''Dr'', ''Professor'']"

definition init_state :: state where
  "init_state = \<lparr>candidate_id = 0, resume_count = 0, resume_errors = 0,
                 csv_rows = [], resume_files = []\<rparr>"

text \<open>\<open>doc.getPage(n)\<close> is \<open>flattenedPages[n]\<close>; the page object is named by its index.\<close>

definition getPage :: "document \<Rightarrow> int \<Rightarrow> error + nat" where
  "getPage doc n = py_getitem [0..<length (pages doc)] n"

text \<open>\<open>"{0}/resumes/{1}.pdf".format(OUTPUT_DIR, candidate_id)\<close>\<close>

definition resume_path :: "int \<Rightarrow> string" where
  "resume_path cid = OUTPUT_DIR @ ''/resumes/'' @ str_int cid @ ''.pdf''"

subsection \<open>Extracting the candidate's details (lines 86 to 99)\<close>

definition extract_details :: "string \<Rightarrow> error + (string \<times> string \<times> string \<times> string)" where
  "extract_details text =
     (let details = py_split_on newline text in
      case py_getitem details 0 of Inl e \<Rightarrow> Inl e | Inr line0 \<Rightarrow>
      (let c_fullname = py_split (py_strip line0) in
       case py_getitem c_fullname 0 of Inl e \<Rightarrow> Inl e | Inr tok0 \<Rightarrow>
       (case (if tok0 \<in> set TITLES
              then (case py_getitem c_fullname 1 of Inl e \<Rightarrow> Inl e | Inr tok1 \<Rightarrow> Inr (tok0, tok1))
              else Inr ([], tok0)) of
          Inl e \<Rightarrow> Inl e
        | Inr (c_title, c_firstname) \<Rightarrow>
        (case py_getitem c_fullname (- 1) of Inl e \<Rightarrow> Inl e | Inr c_lastname \<Rightarrow>
         (case py_index details ''Email Address:'' of Inl e \<Rightarrow> Inl e | Inr idx \<Rightarrow>
          (case py_getitem details (int idx + 1) of Inl e \<Rightarrow> Inl e | Inr l \<Rightarrow>
             Inr (c_title, c_firstname, c_lastname, py_strip l)))))))"

subsection \<open>The body of the loop over the outline (lines 72 to 136)\<close>

text \<open>The first \<open>if\<close>: a new candidate.\<close>

definition details_branch :: "document \<Rightarrow> nat \<Rightarrow> string \<Rightarrow> state \<Rightarrow> outcome" where
  "details_branch doc pg ttl s =
     (if is_candidate_details ttl then
        (let s1 = s\<lparr>candidate_id := candidate_id s + 1\<rparr> in
         case extract_details (pages doc ! pg) of
           Inl e \<Rightarrow> Inl (e, s1)
         | Inr (c_title, c_firstname, c_lastname, c_email) \<Rightarrow>
             Inr (s1\<lparr>csv_rows := csv_rows s1 @
                      [\<lparr>row_id = candidate_id s1, row_title = c_title,
                        first_name = c_firstname, last_name = c_lastname,
                        email = c_email\<rparr>]\<rparr>))
      else Inr s)"

text \<open>
  The \<open>while True\<close> scan for the next item that is not a list. It is entered with
  \<open>k = i + 1\<close>, and reading \<open>doc.outlines[k]\<close> past the end raises IndexError.
\<close>

function next_dest :: "outline_item list \<Rightarrow> nat \<Rightarrow> error + destination" where
  "next_dest outl k =
     (if length outl \<le> k then Inl IndexError
      else (case outl ! k of
              Sub xs \<Rightarrow> next_dest outl (Suc k)
            | Dest d \<Rightarrow> Inr d))"
  by pat_completeness auto
termination
  by (relation "measure (\<lambda>(outl, k). length outl - k)") auto

declare next_dest.simps [simp del]

text \<open>\<open>for j in range(..): resume.addPage(doc.getPage(j))\<close>\<close>

fun add_pages :: "document \<Rightarrow> int list \<Rightarrow> error + nat list" where
  "add_pages doc [] = Inr []"
| "add_pages doc (j # js) =
     (case getPage doc j of
        Inl e \<Rightarrow> Inl e
      | Inr pg \<Rightarrow> (case add_pages doc js of Inl e \<Rightarrow> Inl e | Inr pgs \<Rightarrow> Inr (pg # pgs)))"

text \<open>The second \<open>if\<close> with its \<open>elif\<close>: a resume, or a resume with an error.\<close>

definition resume_branch :: "document \<Rightarrow> nat \<Rightarrow> int \<Rightarrow> string \<Rightarrow> state \<Rightarrow> outcome" where
  "resume_branch doc i page_num ttl s =
     (if is_resume_ok ttl then
        (let s1 = s\<lparr>resume_count := resume_count s + 1\<rparr> in
         case next_dest (outlines doc) (Suc i) of
           Inl e \<Rightarrow> Inl (e, s1)
         | Inr nd \<Rightarrow>
            (case add_pages doc [page_num..page_number nd - 1] of
               Inl e \<Rightarrow> Inl (e, s1)
             | Inr resume \<Rightarrow>
                 Inr (s1\<lparr>resume_files := resume_files s1 @
                          [(resume_path (candidate_id s1), resume)]\<rparr>)))
      else if is_resume_error ttl then Inr (s\<lparr>resume_errors := resume_errors s + 1\<rparr>)
      else Inr s)"

definition loop_body :: "document \<Rightarrow> nat \<Rightarrow> outline_item \<Rightarrow> state \<Rightarrow> outcome" where
  "loop_body doc i item s =
     (case item of
        Sub xs \<Rightarrow> Inr s
      | Dest d \<Rightarrow>
         (case getPage doc (page_number d) of
            Inl e \<Rightarrow> Inl (e, s)
          | Inr pg \<Rightarrow>
             (case details_branch doc pg (title d) s of
                Inl x \<Rightarrow> Inl x
              | Inr s1 \<Rightarrow> resume_branch doc i (page_number d) (title d) s1)))"

text \<open>\<open>for i, dest in enumerate(doc.outlines)\<close>\<close>

fun process_items :: "document \<Rightarrow> (nat \<times> outline_item) list \<Rightarrow> state \<Rightarrow> outcome" where
  "process_items doc [] s = Inr s"
| "process_items doc ((i, item) # rest) s =
     (case loop_body doc i item s of
        Inl x \<Rightarrow> Inl x
      | Inr s1 \<Rightarrow> process_items doc rest s1)"

definition process_pdf :: "document \<Rightarrow> state \<Rightarrow> outcome" where
  "process_pdf doc s = process_items doc (enumerate 0 (outlines doc)) s"

text \<open>\<open>for input_pdf in INPUT_PDFS\<close>, the counters running on from one file to the next.\<close>

fun process_pdfs :: "document list \<Rightarrow> state \<Rightarrow> outcome" where
  "process_pdfs [] s = Inr s"
| "process_pdfs (doc # docs) s =
     (case process_pdf doc s of
        Inl x \<Rightarrow> Inl x
      | Inr s1 \<Rightarrow> process_pdfs docs s1)"

definition run :: "document list \<Rightarrow> outcome" where
  "run docs = process_pdfs docs init_state"

subsection \<open>Notions used to state the properties\<close>

text \<open>The tokens of the name line: the first line of the page text, stripped and split.\<close>

definition name_tokens :: "string \<Rightarrow> string list" where
  "name_tokens text = py_split (py_strip (hd (py_split_on newline text)))"


text \<open>A top-level bookmark that the first \<open>if\<close> takes for a candidate.\<close>

fun is_details_item :: "outline_item \<Rightarrow> bool" where
  "is_details_item (Dest d) = is_candidate_details (title d)"
| "is_details_item (Sub xs) = False"

text \<open>The page numbers of the top-level bookmarks, in outline order.\<close>

fun toplevel_pages :: "outline_item list \<Rightarrow> int list" where
  "toplevel_pages [] = []"
| "toplevel_pages (Dest d # rest) = page_number d # toplevel_pages rest"
| "toplevel_pages (Sub xs # rest) = toplevel_pages rest"

text \<open>All pages written to resume files, in the order written.\<close>

definition emitted_pages :: "state \<Rightarrow> nat list" where
  "emitted_pages s = concat (map snd (resume_files s))"


text \<open>The number of candidate bookmarks in the input files.\<close>

definition details_markers :: "document list \<Rightarrow> nat" where
  "details_markers docs = sum_list (map (\<lambda>doc. length (filter is_details_item (outlines doc))) docs)"


subsection \<open>Sample documents\<close>

text \<open>
  Three candidates: the first with a resume of two pages that has a bookmark of its own,
  the second with a resume that failed, the third with a resume followed by a last
  top-level bookmark.
\<close>

definition sample_doc :: document where
  "sample_doc =
     \<lparr>outlines = [Dest (Destination ''1. Candidate Details'' 0),
                  Dest (Destination ''john.pdf'' 1),
                  Sub [Dest (Destination ''Education'' 2)],
                  Dest (Destination ''2. Candidate Details'' 3),
                  Dest (Destination ''jane.pdf (Error)'' 4),
                  Dest (Destination ''3. Candidate Details'' 5),
                  Dest (Destination ''ann.pdf'' 6),
                  Dest (Destination ''Summary'' 8)],
      pages = [''Mr John Q Public'' @ [newline] @ ''Email Address:'' @ [newline] @ '' john@example.org '',
               ''cv page 1'', ''cv page 2'',
               ''Jane Doe'' @ [newline] @ ''Email Address:'' @ [newline] @ ''jane@example.org'',
               ''no resume'',
               ''Dr Ann Lee'' @ [newline] @ ''Email Address:'' @ [newline] @ ''ann@example.org'',
               ''cv page 1'', ''cv page 2'', ''summary'']\<rparr>"

definition sample_result :: state where
  "sample_result =
     \<lparr>candidate_id = 3, resume_count = 2, resume_errors = 1,
      csv_rows = [\<lparr>row_id = 1, row_title = ''Mr'', first_name = ''John'', last_name = ''Public'',
                   email = ''john@example.org''\<rparr>,
                  \<lparr>row_id = 2, row_title = [], first_name = ''Jane'', last_name = ''Doe'',
                   email = ''jane@example.org''\<rparr>,
                  \<lparr>row_id = 3, row_title = ''Dr'', first_name = ''Ann'', last_name = ''Lee'',
                   email = ''ann@example.org''\<rparr>],
      resume_files = [(''output/resumes/1.pdf'', [1, 2]), (''output/resumes/3.pdf'', [6, 7])]\<rparr>"

text \<open>A resume, with a bookmark of its own, is the last top-level bookmark.\<close>

definition last_resume_doc :: document where
  "last_resume_doc =
     \<lparr>outlines = [Dest (Destination ''1. Candidate Details'' 0),
                  Dest (Destination ''resume.pdf'' 1),
                  Sub [Dest (Destination ''Education'' 2)]],
      pages = [''Jane Doe'' @ [newline] @ ''Email Address:'' @ [newline] @ ''jane@example.org'',
               ''cv page 1'', ''cv page 2'']\<rparr>"

text \<open>A bookmark title that the details pattern and the resume pattern both accept.\<close>

definition both_doc :: document where
  "both_doc =
     \<lparr>outlines = [Dest (Destination ''1. Candidate Details.pdf'' 0),
                  Dest (Destination ''2. Candidate Details'' 1)],
      pages = [''Jane Doe'' @ [newline] @ ''Email Address:'' @ [newline] @ ''jane@example.org'',
               ''John Roe'' @ [newline] @ ''Email Address:'' @ [newline] @ ''john@example.org'']\<rparr>"

text \<open>The details page of the first candidate is empty; the second one is fine.\<close>

definition bad_details_doc :: document where
  "bad_details_doc =
     \<lparr>outlines = [Dest (Destination ''1. Candidate Details'' 0),
                  Dest (Destination ''2. Candidate Details'' 1)],
      pages = [[],
               ''Jane Doe'' @ [newline] @ ''Email Address:'' @ [newline] @ ''jane@example.org'']\<rparr>"

text \<open>
  Bookmarks that do not follow the page order: the second resume starts on page 5, the
  third on page 2.
\<close>

definition overlap_doc :: document where
  "overlap_doc =
     \<lparr>outlines = [Dest (Destination ''a.pdf'' 0),
                  Dest (Destination ''b.pdf'' 5),
                  Dest (Destination ''c.pdf'' 2),
                  Dest (Destination ''1. Candidate Details'' 6)],
      pages = [''a1'', ''a2'', ''c1'', ''c2'', ''c3'', ''b1'',
               ''Jane Doe'' @ [newline] @ ''Email Address:'' @ [newline] @ ''jane@example.org'']\<rparr>"

definition overlap_result :: state where
  "overlap_result =
     \<lparr>candidate_id = 1, resume_count = 3, resume_errors = 0,
      csv_rows = [\<lparr>row_id = 1, row_title = [], first_name = ''Jane'', last_name = ''Doe'',
                   email = ''jane@example.org''\<rparr>],
      resume_files = [(''output/resumes/0.pdf'', [0, 1, 2, 3, 4]),
                      (''output/resumes/0.pdf'', []),
                      (''output/resumes/0.pdf'', [2, 3, 4, 5])]\<rparr>"

text \<open>A resume bookmark before the first details bookmark.\<close>

definition orphan_doc :: document where
  "orphan_doc =
     \<lparr>outlines = [Dest (Destination ''resume.pdf'' 0),
                  Dest (Destination ''1. Candidate Details'' 1)],
      pages = [''cv'',
               ''Jane Doe'' @ [newline] @ ''Email Address:'' @ [newline] @ ''jane@example.org'']\<rparr>"

definition orphan_result :: state where
  "orphan_result =
     \<lparr>candidate_id = 1, resume_count = 1, resume_errors = 0,
      csv_rows = [\<lparr>row_id = 1, row_title = [], first_name = ''Jane'', last_name = ''Doe'',
                   email = ''jane@example.org''\<rparr>],
      resume_files = [(''output/resumes/0.pdf'', [0])]\<rparr>"

section \<open>Lemmas\<close>

subsection \<open>What the regular expressions accept\<close>

lemma dot_star_iff:
  "dot_star k s \<longleftrightarrow> (\<exists>a b. s = a @ b \<and> newline \<notin> set a \<and> k b)"
proof (induction s)
  case Nil
  then show ?case by simp
next
  case (Cons c cs)
  show ?case
  proof
    assume "dot_star k (c # cs)"
    then consider "k (c # cs)" | "c \<noteq> newline" "dot_star k cs" by auto
    then show "\<exists>a b. c # cs = a @ b \<and> newline \<notin> set a \<and> k b"
    proof cases
      case 1
      then have "c # cs = [] @ (c # cs) \<and> newline \<notin> set [] \<and> k (c # cs)" by simp
      then show ?thesis by blast
    next
      case 2
      then obtain a b where "cs = a @ b" "newline \<notin> set a" "k b" using Cons.IH by blast
      with 2 have "c # cs = (c # a) @ b \<and> newline \<notin> set (c # a) \<and> k b" by simp
      then show ?thesis by blast
    qed
  next
    assume "\<exists>a b. c # cs = a @ b \<and> newline \<notin> set a \<and> k b"
    then obtain a b where ab: "c # cs = a @ b" "newline \<notin> set a" "k b" by blast
    show "dot_star k (c # cs)"
    proof (cases a)
      case Nil
      with ab have "b = c # cs" by simp
      with ab(3) have "k (c # cs)" by simp
      then show ?thesis by simp
    next
      case (Cons a0 a')
      with ab have "c = a0" "cs = a' @ b" "newline \<notin> set a'" "c \<noteq> newline" by auto
      then show ?thesis using Cons.IH ab(3) by auto
    qed
  qed
qed

lemma literal_iff: "literal p k s \<longleftrightarrow> (\<exists>r. s = p @ r \<and> k r)"
proof
  assume "literal p k s"
  then have "take (length p) s = p" "k (drop (length p) s)" by (simp_all add: literal_def)
  then have "s = p @ drop (length p) s \<and> k (drop (length p) s)"
    by (metis append_take_drop_id)
  then show "\<exists>r. s = p @ r \<and> k r" by blast
next
  assume "\<exists>r. s = p @ r \<and> k r"
  then show "literal p k s" by (auto simp: literal_def)
qed

lemma dot_star_literal_iff:
  "dot_star (literal p k) s \<longleftrightarrow> (\<exists>a r. s = a @ p @ r \<and> newline \<notin> set a \<and> k r)"
  unfolding dot_star_iff literal_iff by blast

lemma is_resume_ok_iff:
  "is_resume_ok ttl \<longleftrightarrow>
     (\<exists>a. newline \<notin> set a \<and> (ttl = a @ ''.pdf'' \<or> ttl = a @ ''.pdf'' @ [newline]))"
  unfolding is_resume_ok_def dot_star_literal_iff end_anchor_def by blast

lemma is_resume_error_iff:
  "is_resume_error ttl \<longleftrightarrow>
     (\<exists>a b. newline \<notin> set a \<and> newline \<notin> set b \<and>
        (ttl = a @ ''.pdf ('' @ b @ '')'' \<or> ttl = a @ ''.pdf ('' @ b @ '')'' @ [newline]))"
  unfolding is_resume_error_def dot_star_literal_iff end_anchor_def by blast

subsection \<open>Indexing, searching and the extraction of details\<close>

lemma py_split_on_not_Nil: "py_split_on sep s \<noteq> []"
  by (induction s) (auto split: list.splits)

lemma py_getitem_0: "py_getitem xs 0 = (if xs = [] then Inl IndexError else Inr (hd xs))"
  by (cases xs) (simp_all add: py_getitem_def)

lemma py_getitem_1: "py_getitem xs 1 = (if length xs \<le> 1 then Inl IndexError else Inr (xs ! 1))"
  by (auto simp: py_getitem_def)

lemma py_getitem_minus1: "py_getitem xs (- 1) = (if xs = [] then Inl IndexError else Inr (last xs))"
proof (cases xs rule: rev_cases)
  case Nil
  then show ?thesis by (simp add: py_getitem_def)
next
  case (snoc ys y)
  then show ?thesis by (simp add: py_getitem_def nth_append)
qed

lemma py_getitem_nat: "py_getitem xs (int n) = (if n < length xs then Inr (xs ! n) else Inl IndexError)"
  by (simp add: py_getitem_def)

lemma py_getitem_succ:
  "py_getitem xs (int n + 1) = (if Suc n < length xs then Inr (xs ! Suc n) else Inl IndexError)"
  by (auto simp: py_getitem_def nat_add_distrib)

lemma py_index_Inl: "py_index xs v = Inl e \<Longrightarrow> e = ValueError \<and> v \<notin> set xs"
  by (induction xs arbitrary: e) (auto split: if_splits sum.splits)

lemma py_index_Inr: "py_index xs v = Inr n \<Longrightarrow> n < length xs \<and> xs ! n = v \<and> v \<notin> set (take n xs)"
  by (induction xs arbitrary: n) (auto split: if_splits sum.splits)

lemma py_index_butlast:
  "(\<exists>idx. py_index xs v = Inr idx \<and> Suc idx < length xs) \<longleftrightarrow> v \<in> set (butlast xs)"
proof (induction xs)
  case Nil
  then show ?case by simp
next
  case (Cons x xs)
  show ?case
  proof (cases "x = v")
    case True
    then show ?thesis by (cases xs) auto
  next
    case False
    then show ?thesis using Cons.IH
      by (cases xs) (auto split: sum.splits)
  qed
qed

lemma extract_details_fails_iff:
  "(\<exists>e. extract_details text = Inl e) \<longleftrightarrow>
     (name_tokens text = [] \<or>
      (hd (name_tokens text) \<in> set TITLES \<and> length (name_tokens text) = 1) \<or>
      ''Email Address:'' \<notin> set (butlast (py_split_on newline text)))"
proof -
  let ?details = "py_split_on newline text"
  let ?toks = "name_tokens text"
  have ne: "?details \<noteq> []" by (rule py_split_on_not_Nil)
  have mail: "(\<exists>e. (case py_index ?details ''Email Address:'' of Inl e \<Rightarrow> Inl e | Inr idx \<Rightarrow>
          (case py_getitem ?details (int idx + 1) of Inl e \<Rightarrow> Inl e | Inr l \<Rightarrow>
             Inr (t, f, la, py_strip l))) = Inl e) \<longleftrightarrow> ''Email Address:'' \<notin> set (butlast ?details)"
    for t f la :: string
  proof -
    show ?thesis
      unfolding py_index_butlast [symmetric]
      by (auto simp: py_getitem_succ split: sum.splits if_splits)
  qed
  show ?thesis
  proof (cases "?toks = []")
    case True
    then show ?thesis using ne
      unfolding extract_details_def name_tokens_def Let_def py_getitem_0
      by simp
  next
    case False
    then obtain t0 rest where toks: "?toks = t0 # rest" by (cases ?toks) auto
    show ?thesis
    proof (cases "t0 \<in> set TITLES")
      case True
      show ?thesis
      proof (cases rest)
        case Nil
        then show ?thesis using ne toks True
          unfolding extract_details_def name_tokens_def Let_def py_getitem_0 py_getitem_1
          by simp
      next
        case (Cons t1 rest')
        have "extract_details text = (case py_index ?details ''Email Address:'' of Inl e \<Rightarrow> Inl e | Inr idx \<Rightarrow>
          (case py_getitem ?details (int idx + 1) of Inl e \<Rightarrow> Inl e | Inr l \<Rightarrow>
             Inr (t0, t1, last ?toks, py_strip l)))"
          using ne toks True Cons
          unfolding extract_details_def name_tokens_def Let_def py_getitem_0 py_getitem_1 py_getitem_minus1
          by (auto split: sum.splits)
        then show ?thesis using mail [of t0 t1 "last ?toks"] toks True Cons by simp
      qed
    next
      case F2: False
      have "extract_details text = (case py_index ?details ''Email Address:'' of Inl e \<Rightarrow> Inl e | Inr idx \<Rightarrow>
          (case py_getitem ?details (int idx + 1) of Inl e \<Rightarrow> Inl e | Inr l \<Rightarrow>
             Inr ([], t0, last ?toks, py_strip l)))"
        using ne toks F2
        unfolding extract_details_def name_tokens_def Let_def py_getitem_0 py_getitem_1 py_getitem_minus1
        by (auto split: sum.splits)
      then show ?thesis using mail [of "[]" t0 "last ?toks"] toks F2 by simp
    qed
  qed
qed

subsection \<open>One iteration of the loop\<close>

lemma details_branch_Inr:
  assumes "details_branch doc pg ttl s = Inr s1"
  shows "resume_files s1 = resume_files s \<and> resume_count s1 = resume_count s \<and>
         resume_errors s1 = resume_errors s \<and>
         (if is_candidate_details ttl
          then candidate_id s1 = candidate_id s + 1 \<and>
               (\<exists>r. csv_rows s1 = csv_rows s @ [r] \<and> row_id r = candidate_id s + 1)
          else s1 = s)"
  using assms unfolding details_branch_def Let_def
  by (auto split: if_splits sum.splits prod.splits)

lemma resume_branch_Inr:
  assumes "resume_branch doc i p ttl s = Inr s1"
  shows "candidate_id s1 = candidate_id s \<and> csv_rows s1 = csv_rows s \<and>
         (is_resume_ok ttl \<longrightarrow>
            (\<exists>nd seg. next_dest (outlines doc) (Suc i) = Inr nd \<and>
               add_pages doc [p..page_number nd - 1] = Inr seg \<and>
               resume_files s1 = resume_files s @ [(resume_path (candidate_id s), seg)] \<and>
               resume_count s1 = resume_count s + 1 \<and> resume_errors s1 = resume_errors s)) \<and>
         (\<not> is_resume_ok ttl \<longrightarrow> resume_files s1 = resume_files s \<and> resume_count s1 = resume_count s)"
  using assms unfolding resume_branch_def Let_def
  by (auto split: if_splits sum.splits)

lemma next_dest_Inr:
  "next_dest outl k = Inr d \<Longrightarrow>
     \<exists>j\<ge>k. j < length outl \<and> outl ! j = Dest d \<and> (\<forall>m. k \<le> m \<and> m < j \<longrightarrow> (\<exists>xs. outl ! m = Sub xs))"
proof (induction outl k rule: next_dest.induct)
  case (1 outl k)
  from "1.prems" have lt: "k < length outl"
    by (subst (asm) next_dest.simps) (auto split: if_splits)
  show ?case
  proof (cases "outl ! k")
    case (Dest d')
    with "1.prems" lt have "d' = d" by (subst (asm) next_dest.simps) simp
    with Dest lt have "k \<le> k \<and> k < length outl \<and> outl ! k = Dest d \<and> (\<forall>m. k \<le> m \<and> m < k \<longrightarrow> (\<exists>xs. outl ! m = Sub xs))"
      by auto
    then show ?thesis by blast
  next
    case (Sub xs)
    with "1.prems" lt have "next_dest outl (Suc k) = Inr d" by (subst (asm) next_dest.simps) simp
    with "1.IH" [OF _ Sub] lt obtain j where j: "Suc k \<le> j" "j < length outl" "outl ! j = Dest d"
       "\<forall>m. Suc k \<le> m \<and> m < j \<longrightarrow> (\<exists>xs. outl ! m = Sub xs)" by auto
    have "\<forall>m. k \<le> m \<and> m < j \<longrightarrow> (\<exists>xs. outl ! m = Sub xs)"
    proof (intro allI impI)
      fix m assume "k \<le> m \<and> m < j"
      then consider "m = k" | "Suc k \<le> m \<and> m < j" by linarith
      then show "\<exists>xs. outl ! m = Sub xs" using Sub j(4) by cases auto
    qed
    with j show ?thesis by (intro exI [of _ j]) auto
  qed
qed

lemma next_dest_Inl:
  "next_dest outl k = Inl e \<longleftrightarrow> e = IndexError \<and> (\<forall>m. k \<le> m \<and> m < length outl \<longrightarrow> (\<exists>xs. outl ! m = Sub xs))"
proof (induction outl k rule: next_dest.induct)
  case (1 outl k)
  show ?case
  proof (cases "length outl \<le> k")
    case True
    then show ?thesis by (subst next_dest.simps) auto
  next
    case False
    show ?thesis
    proof (cases "outl ! k")
      case (Dest d')
      have "next_dest outl k = Inr d'" using False Dest by (subst next_dest.simps) simp
      moreover have "\<not> (\<forall>m. k \<le> m \<and> m < length outl \<longrightarrow> (\<exists>xs. outl ! m = Sub xs))"
        using False Dest by (auto intro!: exI [of _ k])
      ultimately show ?thesis by simp
    next
      case (Sub xs)
      have eq: "next_dest outl k = next_dest outl (Suc k)" using False Sub by (subst next_dest.simps) simp
      have "(\<forall>m. k \<le> m \<and> m < length outl \<longrightarrow> (\<exists>xs. outl ! m = Sub xs)) \<longleftrightarrow>
            (\<forall>m. Suc k \<le> m \<and> m < length outl \<longrightarrow> (\<exists>xs. outl ! m = Sub xs))"
      proof
        assume a: "\<forall>m. Suc k \<le> m \<and> m < length outl \<longrightarrow> (\<exists>xs. outl ! m = Sub xs)"
        show "\<forall>m. k \<le> m \<and> m < length outl \<longrightarrow> (\<exists>xs. outl ! m = Sub xs)"
        proof (intro allI impI)
          fix m assume "k \<le> m \<and> m < length outl"
          then consider "m = k" | "Suc k \<le> m \<and> m < length outl" by linarith
          then show "\<exists>xs. outl ! m = Sub xs" using Sub a by cases auto
        qed
      qed auto
      then show ?thesis using "1.IH" [OF False Sub] eq by simp
    qed
  qed
qed

lemma getPage_nonneg:
  "0 \<le> n \<Longrightarrow> getPage doc n = Inr pg \<Longrightarrow> pg = nat n \<and> nat n < length (pages doc)"
  by (auto simp: getPage_def py_getitem_def split: if_splits)

lemma getPage_Inr_lt: "getPage doc n = Inr pg \<Longrightarrow> pg < length (pages doc)"
  by (auto simp: getPage_def py_getitem_def split: if_splits)

lemma add_pages_lt:
  "add_pages doc js = Inr seg \<Longrightarrow> \<forall>x\<in>set seg. x < length (pages doc)"
  by (induction js arbitrary: seg) (auto split: sum.splits dest: getPage_Inr_lt)

lemma add_pages_nonneg:
  "add_pages doc js = Inr seg \<Longrightarrow> \<forall>j\<in>set js. 0 \<le> j \<Longrightarrow> seg = map nat js"
  by (induction js arbitrary: seg) (auto split: sum.splits dest: getPage_nonneg)

lemma map_nat_upto: "0 \<le> p \<Longrightarrow> map nat [p..q - 1] = [nat p..<nat q]"
proof (induction "nat (q - p)" arbitrary: p)
  case 0
  then have "q \<le> p" by simp
  then show ?case using 0 by simp
next
  case (Suc n)
  then have lt: "p < q" by linarith
  have a: "nat p < nat q" using lt Suc.prems by linarith
  have b: "Suc (nat p) = nat (p + 1)" using Suc.prems by linarith
  have c: "[p..q - 1] = p # [p + 1..q - 1]" using lt by (subst upto.simps) simp
  have n: "n = nat (q - (p + 1))" using Suc.hyps(2) by linarith
  have d: "map nat [p + 1..q - 1] = [nat (p + 1)..<nat q]"
    using Suc.hyps(1) [OF n] Suc.prems by simp
  have e: "[nat p..<nat q] = nat p # [Suc (nat p)..<nat q]" using a by (rule upt_conv_Cons)
  show ?case unfolding c e b using d by simp
qed

lemma add_pages_range:
  assumes "add_pages doc [p..q - 1] = Inr seg" "0 \<le> p"
  shows "seg = [nat p..<nat q]"
proof -
  have "\<forall>j\<in>set [p..q - 1]. 0 \<le> j" using assms(2) by auto
  then have "seg = map nat [p..q - 1]" using assms(1) add_pages_nonneg by blast
  then show ?thesis using map_nat_upto [OF assms(2)] by simp
qed

subsection \<open>Candidate ids over a whole run\<close>

lemma loop_body_ids:
  assumes "loop_body doc i it s = Inr s1"
  shows "candidate_id s1 = candidate_id s + (if is_details_item it then 1 else 0) \<and>
         map row_id (csv_rows s1) =
           map row_id (csv_rows s) @ (if is_details_item it then [candidate_id s + 1] else [])"
proof (cases it)
  case (Sub xs)
  with assms show ?thesis by (simp add: loop_body_def)
next
  case (Dest d)
  with assms obtain pg s0 where
    db: "details_branch doc pg (title d) s = Inr s0" and
    rb: "resume_branch doc i (page_number d) (title d) s0 = Inr s1"
    by (auto simp: loop_body_def split: sum.splits)
  from resume_branch_Inr [OF rb] have "candidate_id s1 = candidate_id s0" "csv_rows s1 = csv_rows s0"
    by simp_all
  with details_branch_Inr [OF db] Dest show ?thesis
    by (auto split: if_splits)
qed

lemma upto_join: "a \<le> b \<Longrightarrow> b \<le> c \<Longrightarrow> [a + 1..b] @ [b + 1..c] = [a + 1..c]"
proof (cases "a = b")
  case True
  then show ?thesis by simp
next
  case False
  assume "a \<le> b" "b \<le> c"
  with False have "a + 1 \<le> b" by simp
  then show ?thesis using \<open>b \<le> c\<close> upto_split2 [of "a + 1" b c] by simp
qed

lemma process_items_ids:
  "process_items doc es s = Inr s' \<Longrightarrow>
     candidate_id s' = candidate_id s + int (length (filter is_details_item (map snd es))) \<and>
     map row_id (csv_rows s') = map row_id (csv_rows s) @ [candidate_id s + 1..candidate_id s']"
proof (induction es arbitrary: s)
  case Nil
  then show ?case by simp
next
  case (Cons e es)
  obtain i it where e: "e = (i, it)" by (cases e)
  with Cons.prems obtain s1 where
    lb: "loop_body doc i it s = Inr s1" and rest: "process_items doc es s1 = Inr s'"
    by (auto split: sum.splits)
  note ih = Cons.IH [OF rest]
  note st = loop_body_ids [OF lb]
  show ?case
  proof (cases "is_details_item it")
    case True
    with st have c1: "candidate_id s1 = candidate_id s + 1"
      and r1: "map row_id (csv_rows s1) = map row_id (csv_rows s) @ [candidate_id s + 1]" by simp_all
    have le: "candidate_id s + 1 \<le> candidate_id s'" using ih c1 by simp
    have "[candidate_id s + 1] @ [candidate_id s + 1 + 1..candidate_id s'] = [candidate_id s + 1..candidate_id s']"
      using le upto_rec1 [of "candidate_id s + 1" "candidate_id s'"] by simp
    then show ?thesis using ih c1 r1 e True by simp
  next
    case False
    with st ih e show ?thesis by simp
  qed
qed

lemma process_pdf_ids:
  "process_pdf doc s = Inr s' \<Longrightarrow>
     candidate_id s' = candidate_id s + int (length (filter is_details_item (outlines doc))) \<and>
     map row_id (csv_rows s') = map row_id (csv_rows s) @ [candidate_id s + 1..candidate_id s']"
  unfolding process_pdf_def using process_items_ids [of doc "enumerate 0 (outlines doc)" s s']
  by simp

lemma process_pdfs_ids:
  "process_pdfs docs s = Inr s' \<Longrightarrow>
     candidate_id s' = candidate_id s + int (details_markers docs) \<and>
     map row_id (csv_rows s') = map row_id (csv_rows s) @ [candidate_id s + 1..candidate_id s']"
proof (induction docs arbitrary: s)
  case Nil
  then show ?case by (simp add: details_markers_def)
next
  case (Cons doc docs)
  then obtain s1 where p1: "process_pdf doc s = Inr s1" and rest: "process_pdfs docs s1 = Inr s'"
    by (auto split: sum.splits)
  note a = process_pdf_ids [OF p1]
  note b = Cons.IH [OF rest]
  have dm: "details_markers (doc # docs) = length (filter is_details_item (outlines doc)) + details_markers docs"
    by (simp add: details_markers_def)
  have le1: "candidate_id s \<le> candidate_id s1" using a by simp
  have le2: "candidate_id s1 \<le> candidate_id s'" using b by simp
  have "map row_id (csv_rows s') = map row_id (csv_rows s) @ ([candidate_id s + 1..candidate_id s1] @ [candidate_id s1 + 1..candidate_id s'])"
    using a b by simp
  then have "map row_id (csv_rows s') = map row_id (csv_rows s) @ [candidate_id s + 1..candidate_id s']"
    using upto_join [OF le1 le2] by simp
  moreover have "candidate_id s' = candidate_id s + int (details_markers (doc # docs))"
    using a b dm by simp
  ultimately show ?case by simp
qed

subsection \<open>The rows written, also when the run is cut short\<close>

text \<open>
  Between two iterations the counter is the number of rows written, and the rows are
  numbered from 1. An exception can leave the counter one ahead of the rows.
\<close>

lemma upto_snoc_nat: "[1..int n] @ [int n + 1] = [1..int (Suc n)]"
  using upto_rec2 [of 1 "int n + 1"] by (simp add: add.commute)

lemma details_branch_numbered:
  assumes inv: "candidate_id s = int (length (csv_rows s))"
              "map row_id (csv_rows s) = [1..int (length (csv_rows s))]"
  shows "case details_branch doc pg ttl s of
           Inr s1 \<Rightarrow> candidate_id s1 = int (length (csv_rows s1)) \<and>
                     map row_id (csv_rows s1) = [1..int (length (csv_rows s1))]
         | Inl (e, s1) \<Rightarrow> map row_id (csv_rows s1) = [1..int (length (csv_rows s1))]"
  using inv upto_snoc_nat [of "length (csv_rows s)"]
  unfolding details_branch_def Let_def
  by (auto split: sum.splits prod.splits)

lemma resume_branch_Inl:
  assumes "resume_branch doc i p ttl s = Inl (e, s1)"
  shows "csv_rows s1 = csv_rows s \<and> candidate_id s1 = candidate_id s \<and>
         resume_files s1 = resume_files s"
  using assms unfolding resume_branch_def Let_def
  by (auto split: if_splits sum.splits)

lemma loop_body_numbered:
  assumes inv: "candidate_id s = int (length (csv_rows s))"
              "map row_id (csv_rows s) = [1..int (length (csv_rows s))]"
  shows "case loop_body doc i it s of
           Inr s1 \<Rightarrow> candidate_id s1 = int (length (csv_rows s1)) \<and>
                     map row_id (csv_rows s1) = [1..int (length (csv_rows s1))]
         | Inl (e, s1) \<Rightarrow> map row_id (csv_rows s1) = [1..int (length (csv_rows s1))]"
proof (cases it)
  case (Sub xs)
  with inv show ?thesis by (simp add: loop_body_def)
next
  case (Dest d)
  show ?thesis
  proof (cases "getPage doc (page_number d)")
    case (Inl e)
    with Dest inv show ?thesis by (simp add: loop_body_def)
  next
    case (Inr pg)
    note db = details_branch_numbered [OF inv, of doc pg "title d"]
    show ?thesis
    proof (cases "details_branch doc pg (title d) s")
      case (Inl x)
      with db Dest Inr show ?thesis by (simp add: loop_body_def)
    next
      case s0: (Inr s0)
      with db have inv0: "candidate_id s0 = int (length (csv_rows s0))"
        "map row_id (csv_rows s0) = [1..int (length (csv_rows s0))]" by simp_all
      have lb: "loop_body doc i it s = resume_branch doc i (page_number d) (title d) s0"
        using Dest Inr s0 by (simp add: loop_body_def)
      show ?thesis
      proof (cases "resume_branch doc i (page_number d) (title d) s0")
        case (Inl x)
        obtain e s1 where x: "x = (e, s1)" by (cases x)
        from resume_branch_Inl [OF Inl [unfolded x]] inv0 lb Inl x show ?thesis by simp
      next
        case (Inr s1)
        from resume_branch_Inr [OF Inr] inv0 lb Inr show ?thesis by simp
      qed
    qed
  qed
qed

lemma process_items_numbered:
  assumes "candidate_id s = int (length (csv_rows s))"
      and "map row_id (csv_rows s) = [1..int (length (csv_rows s))]"
  shows "case process_items doc es s of
           Inr s1 \<Rightarrow> candidate_id s1 = int (length (csv_rows s1)) \<and>
                     map row_id (csv_rows s1) = [1..int (length (csv_rows s1))]
         | Inl (e, s1) \<Rightarrow> map row_id (csv_rows s1) = [1..int (length (csv_rows s1))]"
  using assms
proof (induction es arbitrary: s)
  case Nil
  then show ?case by simp
next
  case (Cons x es)
  obtain i it where x: "x = (i, it)" by (cases x)
  note lb = loop_body_numbered [OF Cons.prems, of doc i it]
  show ?case
  proof (cases "loop_body doc i it s")
    case (Inl y)
    with lb x show ?thesis by simp
  next
    case (Inr s1)
    with lb have "candidate_id s1 = int (length (csv_rows s1))"
      "map row_id (csv_rows s1) = [1..int (length (csv_rows s1))]" by simp_all
    from Cons.IH [OF this] x Inr show ?thesis by simp
  qed
qed

lemma process_pdfs_numbered:
  assumes "candidate_id s = int (length (csv_rows s))"
      and "map row_id (csv_rows s) = [1..int (length (csv_rows s))]"
  shows "case process_pdfs docs s of
           Inr s1 \<Rightarrow> candidate_id s1 = int (length (csv_rows s1)) \<and>
                     map row_id (csv_rows s1) = [1..int (length (csv_rows s1))]
         | Inl (e, s1) \<Rightarrow> map row_id (csv_rows s1) = [1..int (length (csv_rows s1))]"
  using assms
proof (induction docs arbitrary: s)
  case Nil
  then show ?case by simp
next
  case (Cons doc docs)
  note pi = process_items_numbered [OF Cons.prems, of doc "enumerate 0 (outlines doc)"]
  show ?case
  proof (cases "process_pdf doc s")
    case (Inl y)
    with pi show ?thesis by (simp add: process_pdf_def)
  next
    case (Inr s1)
    with pi have "candidate_id s1 = int (length (csv_rows s1))"
      "map row_id (csv_rows s1) = [1..int (length (csv_rows s1))]"
      by (simp_all add: process_pdf_def)
    from Cons.IH [OF this] Inr show ?thesis by simp
  qed
qed

lemma run_rows_numbered:
  "map row_id (csv_rows (outcome_state (run docs))) =
     [1..int (length (csv_rows (outcome_state (run docs))))]"
proof -
  have "candidate_id init_state = int (length (csv_rows init_state))"
    "map row_id (csv_rows init_state) = [1..int (length (csv_rows init_state))]"
    by (simp_all add: init_state_def)
  from process_pdfs_numbered [OF this, of docs] show ?thesis
    by (auto simp: run_def outcome_state_def split: sum.splits prod.splits)
qed

subsection \<open>The files written by a run\<close>

lemma loop_body_Dest_Inr:
  assumes "loop_body doc i (Dest d) s = Inr s'"
  obtains pg s0 where "getPage doc (page_number d) = Inr pg"
    "details_branch doc pg (title d) s = Inr s0"
    "resume_branch doc i (page_number d) (title d) s0 = Inr s'"
  using assms by (auto simp: loop_body_def split: sum.splits)

lemma loop_body_resume:
  assumes lb: "loop_body doc i (Dest d) s = Inr s'" and ok: "is_resume_ok (title d)"
  shows "\<exists>nd seg. next_dest (outlines doc) (Suc i) = Inr nd \<and>
           add_pages doc [page_number d..page_number nd - 1] = Inr seg \<and>
           resume_files s' = resume_files s @ [(resume_path (candidate_id s'), seg)]"
proof -
  from lb obtain pg s0 where
    db: "details_branch doc pg (title d) s = Inr s0" and
    rb: "resume_branch doc i (page_number d) (title d) s0 = Inr s'"
    by (rule loop_body_Dest_Inr)
  from details_branch_Inr [OF db] have f0: "resume_files s0 = resume_files s" by simp
  from resume_branch_Inr [OF rb] ok obtain nd seg where
    "next_dest (outlines doc) (Suc i) = Inr nd"
    "add_pages doc [page_number d..page_number nd - 1] = Inr seg"
    "resume_files s' = resume_files s0 @ [(resume_path (candidate_id s0), seg)]"
    "candidate_id s' = candidate_id s0" by auto
  with f0 show ?thesis by auto
qed

lemma loop_body_no_resume:
  assumes lb: "loop_body doc i it s = Inr s'" and no: "\<forall>d. it = Dest d \<longrightarrow> \<not> is_resume_ok (title d)"
  shows "resume_files s' = resume_files s"
proof (cases it)
  case (Sub xs)
  with lb show ?thesis by (simp add: loop_body_def)
next
  case (Dest d)
  with lb obtain pg s0 where
    db: "details_branch doc pg (title d) s = Inr s0" and
    rb: "resume_branch doc i (page_number d) (title d) s0 = Inr s'"
    by (auto elim: loop_body_Dest_Inr)
  from details_branch_Inr [OF db] have "resume_files s0 = resume_files s" by simp
  moreover from resume_branch_Inr [OF rb] no Dest have "resume_files s' = resume_files s0" by simp
  ultimately show ?thesis by simp
qed

lemma loop_body_files_prefix:
  assumes "loop_body doc i it s = Inr s'"
  shows "\<exists>more. resume_files s' = resume_files s @ more"
proof (cases "\<forall>d. it = Dest d \<longrightarrow> \<not> is_resume_ok (title d)")
  case True
  from loop_body_no_resume [OF assms True] show ?thesis by simp
next
  case False
  then obtain d where "it = Dest d" "is_resume_ok (title d)" by blast
  with loop_body_resume [of doc i d s s'] assms show ?thesis by blast
qed

lemma process_items_files_prefix:
  "process_items doc es s = Inr s' \<Longrightarrow> \<exists>more. resume_files s' = resume_files s @ more"
proof (induction es arbitrary: s)
  case Nil
  then show ?case by simp
next
  case (Cons e es)
  obtain i it where e: "e = (i, it)" by (cases e)
  with Cons.prems obtain s1 where
    lb: "loop_body doc i it s = Inr s1" and rest: "process_items doc es s1 = Inr s'"
    by (auto split: sum.splits)
  from loop_body_files_prefix [OF lb] Cons.IH [OF rest] show ?case by auto
qed

lemma process_pdfs_files_prefix:
  "process_pdfs docs s = Inr s' \<Longrightarrow> \<exists>more. resume_files s' = resume_files s @ more"
proof (induction docs arbitrary: s)
  case Nil
  then show ?case by simp
next
  case (Cons doc docs)
  then obtain s1 where p1: "process_pdf doc s = Inr s1" and rest: "process_pdfs docs s1 = Inr s'"
    by (auto split: sum.splits)
  from p1 have "\<exists>more. resume_files s1 = resume_files s @ more"
    unfolding process_pdf_def by (rule process_items_files_prefix)
  with Cons.IH [OF rest] show ?case by auto
qed

lemma process_items_append:
  "process_items doc (es1 @ es2) s =
     (case process_items doc es1 s of Inl e \<Rightarrow> Inl e | Inr s1 \<Rightarrow> process_items doc es2 s1)"
  by (induction es1 arbitrary: s) (auto split: sum.splits)

lemma enumerate_split:
  assumes "i < length xs"
  shows "enumerate 0 xs = enumerate 0 (take i xs) @ (i, xs ! i) # enumerate (Suc i) (drop (Suc i) xs)"
proof -
  have "enumerate 0 xs = enumerate 0 (take i xs @ xs ! i # drop (Suc i) xs)"
    using assms by (simp add: id_take_nth_drop [symmetric])
  also have "\<dots> = enumerate 0 (take i xs) @ enumerate (length (take i xs)) (xs ! i # drop (Suc i) xs)"
    by (simp add: enumerate_append_eq)
  also have "length (take i xs) = i" using assms by simp
  finally show ?thesis by simp
qed


lemma next_dest_toplevel:
  "next_dest outl k = Inr nd \<Longrightarrow> \<exists>r. toplevel_pages (drop k outl) = page_number nd # r"
proof (induction outl k rule: next_dest.induct)
  case (1 outl k)
  from "1.prems" have lt: "k < length outl"
    by (subst (asm) next_dest.simps) (auto split: if_splits)
  then have dr: "drop k outl = outl ! k # drop (Suc k) outl" by (simp add: Cons_nth_drop_Suc)
  show ?case
  proof (cases "outl ! k")
    case (Dest d')
    with "1.prems" lt have "d' = nd" by (subst (asm) next_dest.simps) simp
    with Dest dr show ?thesis by simp
  next
    case (Sub xs)
    with "1.prems" lt have "next_dest outl (Suc k) = Inr nd" by (subst (asm) next_dest.simps) simp
    with "1.IH" [OF _ Sub] lt Sub dr show ?thesis by simp
  qed
qed

lemma emitted_pages_append:
  "resume_files s' = resume_files s @ [(path, seg)] \<Longrightarrow> emitted_pages s' = emitted_pages s @ seg"
  by (simp add: emitted_pages_def)

lemma loop_body_emitted_lt:
  assumes "loop_body doc i it s = Inr s'" "\<forall>x\<in>set (emitted_pages s). x < length (pages doc)"
  shows "\<forall>x\<in>set (emitted_pages s'). x < length (pages doc)"
proof (cases "\<forall>d. it = Dest d \<longrightarrow> \<not> is_resume_ok (title d)")
  case True
  from loop_body_no_resume [OF assms(1) True] assms(2) show ?thesis by (simp add: emitted_pages_def)
next
  case False
  then obtain d where d: "it = Dest d" "is_resume_ok (title d)" by blast
  with loop_body_resume [of doc i d s s'] assms(1) obtain nd seg where
    ap: "add_pages doc [page_number d..page_number nd - 1] = Inr seg" and
    fs: "resume_files s' = resume_files s @ [(resume_path (candidate_id s'), seg)]" by blast
  from emitted_pages_append [OF fs] add_pages_lt [OF ap] assms(2) show ?thesis by auto
qed

lemma loop_body_Inl_files:
  assumes "loop_body doc i it s = Inl (e, s1)"
  shows "resume_files s1 = resume_files s"
proof (cases it)
  case (Sub xs)
  with assms show ?thesis by (simp add: loop_body_def)
next
  case (Dest d)
  show ?thesis
  proof (cases "getPage doc (page_number d)")
    case (Inl e')
    with assms Dest show ?thesis by (simp add: loop_body_def)
  next
    case pg: (Inr pg)
    show ?thesis
    proof (cases "details_branch doc pg (title d) s")
      case (Inl x)
      with assms Dest pg have "details_branch doc pg (title d) s = Inl (e, s1)"
        by (simp add: loop_body_def)
      then show ?thesis
        unfolding details_branch_def Let_def
        by (auto split: if_splits sum.splits prod.splits)
    next
      case (Inr s0)
      with assms Dest pg have "resume_branch doc i (page_number d) (title d) s0 = Inl (e, s1)"
        by (simp add: loop_body_def)
      from resume_branch_Inl [OF this] details_branch_Inr [OF Inr] show ?thesis by simp
    qed
  qed
qed

lemma process_items_emitted_lt:
  "\<forall>x\<in>set (emitted_pages s). x < length (pages doc) \<Longrightarrow>
     \<forall>x\<in>set (emitted_pages (outcome_state (process_items doc es s))). x < length (pages doc)"
proof (induction es arbitrary: s)
  case Nil
  then show ?case by (simp add: outcome_state_def)
next
  case (Cons x es)
  obtain i it where x: "x = (i, it)" by (cases x)
  show ?case
  proof (cases "loop_body doc i it s")
    case (Inl y)
    obtain e s1 where y: "y = (e, s1)" by (cases y)
    from loop_body_Inl_files [OF Inl [unfolded y]] have "emitted_pages s1 = emitted_pages s"
      by (simp add: emitted_pages_def)
    with Cons.prems x Inl y show ?thesis by (simp add: outcome_state_def)
  next
    case (Inr s1)
    from loop_body_emitted_lt [OF Inr Cons.prems] Cons.IH [of s1] x Inr show ?thesis by simp
  qed
qed

lemma process_items_sorted:
  assumes "drop i (outlines doc) = es"
      and "sorted (toplevel_pages es)"
      and "\<forall>p\<in>set (toplevel_pages es). 0 \<le> p"
      and "sorted_wrt (<) (emitted_pages s)"
      and "\<forall>x\<in>set (emitted_pages s). \<forall>p\<in>set (toplevel_pages es). int x < p"
  shows "sorted_wrt (<) (emitted_pages (outcome_state (process_items doc (enumerate i es) s)))"
  using assms
proof (induction es arbitrary: i s)
  case Nil
  then show ?case by (simp add: outcome_state_def)
next
  case (Cons it rest)
  from Cons.prems(1) have dr: "drop (Suc i) (outlines doc) = rest"
    by (metis drop_Suc list.sel(3) tl_drop)
  show ?case
  proof (cases "loop_body doc i it s")
    case (Inl y)
    obtain e s1 where y: "y = (e, s1)" by (cases y)
    from loop_body_Inl_files [OF Inl [unfolded y]] have "emitted_pages s1 = emitted_pages s"
      by (simp add: emitted_pages_def)
    with Cons.prems(4) Inl y show ?thesis by (simp add: outcome_state_def)
  next
    case lb: (Inr s1)
    then have eq: "process_items doc (enumerate i (it # rest)) s =
                   process_items doc (enumerate (Suc i) rest) s1" by simp
    show ?thesis
    proof (cases it)
      case (Sub xs)
      with lb have "s1 = s" by (simp add: loop_body_def)
      with Cons.IH [OF dr, of s] Cons.prems Sub eq show ?thesis by simp
    next
      case (Dest d)
      let ?p = "page_number d"
      from Dest Cons.prems(2) have srt: "sorted (toplevel_pages rest)"
        and le: "\<forall>q\<in>set (toplevel_pages rest). ?p \<le> q" by simp_all
      from Dest Cons.prems(3) have nn: "0 \<le> ?p" and nnr: "\<forall>q\<in>set (toplevel_pages rest). 0 \<le> q"
        by simp_all
      from Dest Cons.prems(5) have below: "\<forall>x\<in>set (emitted_pages s). int x < ?p" by simp
      show ?thesis
      proof (cases "is_resume_ok (title d)")
        case False
        with loop_body_no_resume [OF lb] Dest have "emitted_pages s1 = emitted_pages s"
          by (simp add: emitted_pages_def)
        moreover have "\<forall>x\<in>set (emitted_pages s). \<forall>q\<in>set (toplevel_pages rest). int x < q"
          using below le by fastforce
        ultimately show ?thesis using Cons.IH [OF dr srt nnr, of s1] Cons.prems(4) eq by simp
      next
        case True
        from lb Dest have lb': "loop_body doc i (Dest d) s = Inr s1" by simp
        from loop_body_resume [OF lb' True] obtain nd seg where
          nx: "next_dest (outlines doc) (Suc i) = Inr nd" and
          ap: "add_pages doc [?p..page_number nd - 1] = Inr seg" and
          fs: "resume_files s1 = resume_files s @ [(resume_path (candidate_id s1), seg)]" by blast
        let ?q = "page_number nd"
        from add_pages_range [OF ap nn] have seg: "seg = [nat ?p..<nat ?q]" .
        from emitted_pages_append [OF fs] have em: "emitted_pages s1 = emitted_pages s @ seg" .
        from next_dest_toplevel [OF nx] dr obtain r where tl: "toplevel_pages rest = ?q # r" by auto
        with srt have qle: "\<forall>q'\<in>set (toplevel_pages rest). ?q \<le> q'" by auto
        have a: "\<forall>x\<in>set (emitted_pages s). \<forall>y\<in>set seg. x < y"
        proof (intro ballI)
          fix x y assume "x \<in> set (emitted_pages s)" "y \<in> set seg"
          with below seg nn have "int x < ?p" "nat ?p \<le> y" by auto
          then show "x < y" by linarith
        qed
        have "sorted_wrt (<) seg" unfolding seg by simp
        with a Cons.prems(4) em have s1: "sorted_wrt (<) (emitted_pages s1)"
          by (simp add: sorted_wrt_append)
        have b: "\<forall>x\<in>set (emitted_pages s1). \<forall>q'\<in>set (toplevel_pages rest). int x < q'"
        proof (intro ballI)
          fix x q' assume x: "x \<in> set (emitted_pages s1)" and q': "q' \<in> set (toplevel_pages rest)"
          from x em consider "x \<in> set (emitted_pages s)" | "x \<in> set seg" by auto
          then show "int x < q'"
          proof cases
            case 1
            with below le q' show ?thesis by fastforce
          next
            case 2
            with seg have "x < nat ?q" by simp
            then have "int x < ?q" by linarith
            with qle q' show ?thesis by fastforce
          qed
        qed
        from Cons.IH [OF dr srt nnr s1 b] eq show ?thesis by simp
      qed
    qed
  qed
qed

lemma distinct_concat_disjoint:
  assumes "distinct (concat xss)" "a < b" "b < length xss"
  shows "set (xss ! a) \<inter> set (xss ! b) = {}"
proof -
  have "xss = take b xss @ xss ! b # drop (Suc b) xss"
    using assms(3) by (simp add: id_take_nth_drop [symmetric])
  then have "concat xss = concat (take b xss) @ xss ! b @ concat (drop (Suc b) xss)"
    by (metis concat.simps(2) concat_append)
  with assms(1) have dj: "set (concat (take b xss)) \<inter> set (xss ! b) = {}"
    by (metis distinct_append Int_Un_distrib set_append Un_empty)
  have "xss ! a \<in> set (take b xss)"
    using assms(2,3) by (metis in_set_conv_nth length_take min.absorb2 nth_take less_imp_le_nat)
  then have "set (xss ! a) \<subseteq> set (concat (take b xss))" by auto
  with dj show ?thesis by blast
qed

section \<open>The claims\<close>

subsection \<open>C1: a resume as the last top-level bookmark\<close>

text \<open>
  C1 says that when a resume marker is the last top-level bookmark its segment runs to the
  end of the document and the run does not fail. The scan for the next top-level bookmark
  has no bound: with nothing but nested bookmarks after the marker it reads
  \<open>doc.outlines[k]\<close> past the end. On \<open>last_resume_doc\<close> the run ends with an uncaught
  IndexError: the row of the candidate is written and the resume is counted, but no
  resume file is written.
\<close>

theorem last_resume_raises:
  "run [last_resume_doc] =
     Inl (IndexError,
          \<lparr>candidate_id = 1, resume_count = 1, resume_errors = 0,
           csv_rows = [\<lparr>row_id = 1, row_title = [], first_name = ''Jane'', last_name = ''Doe'',
                        email = ''jane@example.org''\<rparr>],
           resume_files = []\<rparr>)"
  by code_simp

text \<open>
  The same for every document: a resume marker that only nested bookmarks follow makes
  the iteration raise, whatever the state.
\<close>

lemma resume_without_successor_raises:
  assumes ok: "is_resume_ok (title d)"
      and nx: "\<forall>m. i < m \<and> m < length (outlines doc) \<longrightarrow> (\<exists>xs. outlines doc ! m = Sub xs)"
  shows "\<exists>x. loop_body doc i (Dest d) s = Inl x"
proof -
  have "next_dest (outlines doc) (Suc i) = Inl IndexError"
    using nx by (simp add: next_dest_Inl Suc_le_eq)
  then have "\<exists>x. resume_branch doc i p (title d) s0 = Inl x" for p s0
    using ok by (simp add: resume_branch_def Let_def)
  then show ?thesis
    by (auto simp: loop_body_def split: sum.splits)
qed

subsection \<open>C2: the categories of a title\<close>

text \<open>
  C2 says that every title falls in exactly one of CandidateDetails, ResumeOk, ResumeError
  and Unrecognized. The details test is an \<open>if\<close> of its own, before the
  \<open>if\<close>/\<open>elif\<close> for resumes, so a title can be taken for a candidate and for a resume in
  the same iteration: on \<open>both_doc\<close> the first bookmark raises the candidate counter and
  the resume counter, and writes a row and a file.
\<close>

theorem details_and_resume_both_fire:
  "is_candidate_details ''1. Candidate Details.pdf'' \<and> is_resume_ok ''1. Candidate Details.pdf'' \<and>
   (case run [both_doc] of
      Inl e \<Rightarrow> False
    | Inr s \<Rightarrow> candidate_id s = 2 \<and> resume_count s = 1 \<and> length (csv_rows s) = 2 \<and>
        map fst (resume_files s) = [''output/resumes/1.pdf''])"
  by code_simp

text \<open>
  C2 as amended: the two resume patterns exclude each other, so that a title is a resume, a
  resume with an error, or neither, and a resume with an error is never taken for a resume.
\<close>

theorem resume_ok_error_exclusive: "\<not> (is_resume_ok ttl \<and> is_resume_error ttl)"
proof
  assume h: "is_resume_ok ttl \<and> is_resume_error ttl"
  then obtain a where a: "ttl = a @ ''.pdf'' \<or> ttl = a @ ''.pdf'' @ [newline]"
    using is_resume_ok_iff by blast
  from h obtain b c where
    b: "ttl = b @ ''.pdf ('' @ c @ '')'' \<or> ttl = b @ ''.pdf ('' @ c @ '')'' @ [newline]"
    using is_resume_error_iff by blast
  have r1: "rev ttl = rev ''.pdf'' @ rev a \<or> rev ttl = newline # rev ''.pdf'' @ rev a"
    using a by auto
  have r2: "rev ttl = CHR '')'' # rev c @ rev ''.pdf ('' @ rev b \<or>
            rev ttl = newline # CHR '')'' # rev c @ rev ''.pdf ('' @ rev b"
    using b by auto
  from r1 r2 show False by (auto simp: newline_def)
qed

subsection \<open>C3: the candidate ids of the rows\<close>

text \<open>
  C3: the counter starts at 0. In every run, also one that an exception cuts short, the
  ids of the rows written are 1, 2, ..., in this order, with no gap and no repeat. In a
  run that ends without an exception there are N of them, N being the number of candidate
  bookmarks of the input files, and the counter ends at N. (Each candidate bookmark raises
  the counter by one before its row is written: \<open>details_branch_Inr\<close>.)
\<close>

theorem candidate_ids_contiguous:
  "candidate_id init_state = 0 \<and>
   map row_id (csv_rows (outcome_state (run docs))) =
     [1..int (length (csv_rows (outcome_state (run docs))))] \<and>
   (\<forall>s. run docs = Inr s \<longrightarrow>
      candidate_id s = int (details_markers docs) \<and>
      map row_id (csv_rows s) = [1..int (details_markers docs)])"
proof -
  have start: "candidate_id init_state = 0" "csv_rows init_state = []"
    by (simp_all add: init_state_def)
  have "candidate_id s = int (details_markers docs) \<and>
        map row_id (csv_rows s) = [1..int (details_markers docs)]" if "run docs = Inr s" for s
  proof -
    from that have "process_pdfs docs init_state = Inr s" by (simp add: run_def)
    from process_pdfs_ids [OF this] start show ?thesis by simp
  qed
  with start(1) run_rows_numbered [of docs] show ?thesis by blast
qed

theorem candidate_ids_contiguous_witness:
  "run [sample_doc] = Inr sample_result \<and> details_markers [sample_doc] = 3 \<and>
   candidate_id sample_result = 3 \<and> map row_id (csv_rows sample_result) = [1, 2, 3] \<and>
   length (csv_rows (outcome_state (run [last_resume_doc]))) = 1 \<and>
   map row_id (csv_rows (outcome_state (run [last_resume_doc]))) = [1]"
proof -
  have h: "run [sample_doc] = Inr sample_result" by code_simp
  have n: "details_markers [sample_doc] = 3" by code_simp
  have u: "[1..(3::int)] = [1, 2, 3]" by code_simp
  from candidate_ids_contiguous [of "[sample_doc]"] h
  have "candidate_id sample_result = int (details_markers [sample_doc]) \<and>
        map row_id (csv_rows sample_result) = [1..int (details_markers [sample_doc])]" by blast
  with n u have a: "candidate_id sample_result = 3 \<and> map row_id (csv_rows sample_result) = [1, 2, 3]"
    by simp
  have l: "length (csv_rows (outcome_state (run [last_resume_doc]))) = 1" by code_simp
  from candidate_ids_contiguous [of "[last_resume_doc]"] l
  have b: "map row_id (csv_rows (outcome_state (run [last_resume_doc]))) = [1]" by simp
  from h n a l b show ?thesis by blast
qed

subsection \<open>C4: a details page that cannot be parsed\<close>

text \<open>
  C4 says that a details page that cannot be parsed fails for that candidate only, and
  that the run records the error and goes on. Nothing in the script catches an
  exception: on \<open>bad_details_doc\<close>, whose first details page is empty and whose second
  is well formed, the run ends with IndexError at the first bookmark, with the counter
  at 1 and no row written.
\<close>

theorem bad_details_aborts_run:
  "run [bad_details_doc] =
     Inl (IndexError,
          \<lparr>candidate_id = 1, resume_count = 0, resume_errors = 0,
           csv_rows = [], resume_files = []\<rparr>)"
  by code_simp

text \<open>
  C4 as amended: for a candidate bookmark whose page resolves, the extraction raises
  exactly when the name line has no token, or is a lone title, or no line but the last of
  the page is \<open>Email Address:\<close>; and then the loop ends with that exception,
  whatever bookmarks follow, the counter raised and no row written. A name line of one
  token that is not a title is accepted.
\<close>

theorem details_failure_aborts:
  assumes "getPage doc (page_number d) = Inr pg"
      and "is_candidate_details (title d)"
  shows "(\<exists>e. extract_details (pages doc ! pg) = Inl e \<and>
              process_items doc ((i, Dest d) # rest) s =
                Inl (e, s\<lparr>candidate_id := candidate_id s + 1\<rparr>)) \<longleftrightarrow>
         (name_tokens (pages doc ! pg) = [] \<or>
          (hd (name_tokens (pages doc ! pg)) \<in> set TITLES \<and> length (name_tokens (pages doc ! pg)) = 1) \<or>
          ''Email Address:'' \<notin> set (butlast (py_split_on newline (pages doc ! pg))))"
proof -
  have "process_items doc ((i, Dest d) # rest) s = Inl (e, s\<lparr>candidate_id := candidate_id s + 1\<rparr>)"
    if "extract_details (pages doc ! pg) = Inl e" for e
    using that assms by (simp add: loop_body_def details_branch_def)
  then have "(\<exists>e. extract_details (pages doc ! pg) = Inl e \<and>
              process_items doc ((i, Dest d) # rest) s =
                Inl (e, s\<lparr>candidate_id := candidate_id s + 1\<rparr>)) \<longleftrightarrow>
             (\<exists>e. extract_details (pages doc ! pg) = Inl e)" by blast
  then show ?thesis using extract_details_fails_iff [of "pages doc ! pg"] by simp
qed

theorem details_failure_aborts_witness:
  "getPage bad_details_doc (page_number (Destination ''1. Candidate Details'' 0)) = Inr 0 \<and>
   is_candidate_details (title (Destination ''1. Candidate Details'' 0)) \<and>
   name_tokens (pages bad_details_doc ! 0) = [] \<and>
   (\<exists>e. extract_details (pages bad_details_doc ! 0) = Inl e \<and>
     process_items bad_details_doc
       [(0, Dest (Destination ''1. Candidate Details'' 0)),
        (1, Dest (Destination ''2. Candidate Details'' 1))]
       init_state = Inl (e, init_state\<lparr>candidate_id := candidate_id init_state + 1\<rparr>))"
proof -
  have g: "getPage bad_details_doc (page_number (Destination ''1. Candidate Details'' 0)) = Inr 0"
    by code_simp
  have c: "is_candidate_details (title (Destination ''1. Candidate Details'' 0))" by code_simp
  have t: "name_tokens (pages bad_details_doc ! 0) = []" by code_simp
  from details_failure_aborts
    [OF g c, of 0 "[(1, Dest (Destination ''2. Candidate Details'' 1))]" init_state] g c t
  show ?thesis by simp
qed

subsection \<open>C5: the pages of a resume\<close>

text \<open>
  C5: when the iteration for a resume marker at position \<open>i\<close>, with a resolved (not
  negative) page number, ends without an exception, there is a next top-level bookmark at
  some position \<open>k\<close>, with nested bookmarks only between \<open>i\<close> and \<open>k\<close>, and the file
  written holds the pages from the marker's page up to but not including that bookmark's
  page, in increasing order, all of them pages of the document.
\<close>

theorem resume_segment_pages:
  assumes lb: "loop_body doc i (Dest d) s = Inr s'"
      and ok: "is_resume_ok (title d)"
      and nn: "0 \<le> page_number d"
  shows "\<exists>k nd. i < k \<and> k < length (outlines doc) \<and> outlines doc ! k = Dest nd \<and>
           (\<forall>m. i < m \<and> m < k \<longrightarrow> (\<exists>xs. outlines doc ! m = Sub xs)) \<and>
           resume_files s' = resume_files s @
             [(resume_path (candidate_id s'), [nat (page_number d)..<nat (page_number nd)])] \<and>
           (\<forall>x\<in>set [nat (page_number d)..<nat (page_number nd)]. x < length (pages doc))"
proof -
  from loop_body_resume [OF lb ok] obtain nd seg where
    nx: "next_dest (outlines doc) (Suc i) = Inr nd" and
    ap: "add_pages doc [page_number d..page_number nd - 1] = Inr seg" and
    fs: "resume_files s' = resume_files s @ [(resume_path (candidate_id s'), seg)]" by blast
  from add_pages_range [OF ap nn] have seg: "seg = [nat (page_number d)..<nat (page_number nd)]" .
  from add_pages_lt [OF ap] seg
  have lt: "\<forall>x\<in>set [nat (page_number d)..<nat (page_number nd)]. x < length (pages doc)" by simp
  from next_dest_Inr [OF nx] obtain k where
    k: "Suc i \<le> k" "k < length (outlines doc)" "outlines doc ! k = Dest nd"
       "\<forall>m. Suc i \<le> m \<and> m < k \<longrightarrow> (\<exists>xs. outlines doc ! m = Sub xs)" by blast
  have "i < k \<and> k < length (outlines doc) \<and> outlines doc ! k = Dest nd \<and>
           (\<forall>m. i < m \<and> m < k \<longrightarrow> (\<exists>xs. outlines doc ! m = Sub xs)) \<and>
           resume_files s' = resume_files s @
             [(resume_path (candidate_id s'), [nat (page_number d)..<nat (page_number nd)])] \<and>
           (\<forall>x\<in>set [nat (page_number d)..<nat (page_number nd)]. x < length (pages doc))"
    using k fs seg lt by (simp add: Suc_le_eq)
  then show ?thesis by blast
qed

theorem resume_segment_pages_witness:
  "loop_body sample_doc 1 (Dest (Destination ''john.pdf'' 1)) (init_state\<lparr>candidate_id := 1\<rparr>) =
     Inr (init_state\<lparr>candidate_id := 1, resume_count := 1,
                     resume_files := [(''output/resumes/1.pdf'', [1, 2])]\<rparr>) \<and>
   is_resume_ok (title (Destination ''john.pdf'' 1)) \<and>
   0 \<le> page_number (Destination ''john.pdf'' 1) \<and>
   outlines sample_doc ! 3 = Dest (Destination ''2. Candidate Details'' 3) \<and>
   (\<exists>k nd. 1 < k \<and> k < length (outlines sample_doc) \<and> outlines sample_doc ! k = Dest nd \<and>
      [(''output/resumes/1.pdf'', [1, 2])] =
        [(resume_path 1, [nat (page_number (Destination ''john.pdf'' 1))..<nat (page_number nd)])])"
proof -
  have h: "loop_body sample_doc 1 (Dest (Destination ''john.pdf'' 1)) (init_state\<lparr>candidate_id := 1\<rparr>) =
     Inr (init_state\<lparr>candidate_id := 1, resume_count := 1,
                     resume_files := [(''output/resumes/1.pdf'', [1, 2])]\<rparr>)"
    by code_simp
  have ok: "is_resume_ok (title (Destination ''john.pdf'' 1))" by code_simp
  have nn: "0 \<le> page_number (Destination ''john.pdf'' 1)" by simp
  have o3: "outlines sample_doc ! 3 = Dest (Destination ''2. Candidate Details'' 3)" by code_simp
  from resume_segment_pages [OF h ok nn] obtain k nd where
    "1 < k" "k < length (outlines sample_doc)" "outlines sample_doc ! k = Dest nd"
    "resume_files (init_state\<lparr>candidate_id := 1, resume_count := 1,
                     resume_files := [(''output/resumes/1.pdf'', [1, 2])]\<rparr>) =
       resume_files (init_state\<lparr>candidate_id := 1\<rparr>) @
         [(resume_path (candidate_id (init_state\<lparr>candidate_id := 1, resume_count := 1,
                     resume_files := [(''output/resumes/1.pdf'', [1, 2])]\<rparr>)),
           [nat (page_number (Destination ''john.pdf'' 1))..<nat (page_number nd)])]"
    by blast
  then have "1 < k \<and> k < length (outlines sample_doc) \<and> outlines sample_doc ! k = Dest nd \<and>
      [(''output/resumes/1.pdf'', [1, 2])] =
        [(resume_path 1, [nat (page_number (Destination ''john.pdf'' 1))..<nat (page_number nd)])]"
    by (simp add: init_state_def)
  then have "\<exists>k nd. 1 < k \<and> k < length (outlines sample_doc) \<and> outlines sample_doc ! k = Dest nd \<and>
      [(''output/resumes/1.pdf'', [1, 2])] =
        [(resume_path 1, [nat (page_number (Destination ''john.pdf'' 1))..<nat (page_number nd)])]"
    by blast
  with h ok nn o3 show ?thesis by blast
qed

subsection \<open>C6: the candidate a resume is bound to\<close>

text \<open>
  C6: the resume branch never changes the counter (nor the rows), whatever the state it is
  entered in; for a resume marker the file it writes is named by the value the counter
  has at that moment, and for any other title it writes no file.
\<close>

theorem resume_bound_to_current_id:
  assumes "resume_branch doc i p ttl s = Inr s'"
  shows "candidate_id s' = candidate_id s \<and> csv_rows s' = csv_rows s \<and>
         (is_resume_ok ttl \<longrightarrow>
            (\<exists>seg. resume_files s' = resume_files s @ [(resume_path (candidate_id s), seg)])) \<and>
         (\<not> is_resume_ok ttl \<longrightarrow> resume_files s' = resume_files s)"
proof -
  note r = resume_branch_Inr [OF assms]
  from r have "candidate_id s' = candidate_id s" "csv_rows s' = csv_rows s" by simp_all
  moreover from r have "is_resume_ok ttl \<longrightarrow>
      (\<exists>seg. resume_files s' = resume_files s @ [(resume_path (candidate_id s), seg)])" by blast
  moreover from r have "\<not> is_resume_ok ttl \<longrightarrow> resume_files s' = resume_files s" by simp
  ultimately show ?thesis by simp
qed

theorem resume_bound_to_current_id_witness:
  "resume_branch sample_doc 6 6 ''ann.pdf'' (init_state\<lparr>candidate_id := 3\<rparr>) =
     Inr (init_state\<lparr>candidate_id := 3, resume_count := 1,
                     resume_files := [(''output/resumes/3.pdf'', [6, 7])]\<rparr>) \<and>
   is_resume_ok ''ann.pdf'' \<and> resume_path 3 = ''output/resumes/3.pdf'' \<and>
   candidate_id (init_state\<lparr>candidate_id := 3, resume_count := 1,
                     resume_files := [(''output/resumes/3.pdf'', [6, 7])]\<rparr>) =
     candidate_id (init_state\<lparr>candidate_id := 3\<rparr>)"
proof -
  have h: "resume_branch sample_doc 6 6 ''ann.pdf'' (init_state\<lparr>candidate_id := 3\<rparr>) =
     Inr (init_state\<lparr>candidate_id := 3, resume_count := 1,
                     resume_files := [(''output/resumes/3.pdf'', [6, 7])]\<rparr>)"
    by code_simp
  have ok: "is_resume_ok ''ann.pdf''" by code_simp
  have p: "resume_path 3 = ''output/resumes/3.pdf''" by code_simp
  from resume_bound_to_current_id [OF h] h ok p show ?thesis by blast
qed

subsection \<open>C7: the fields of the name line\<close>

text \<open>
  C7: when the details are extracted, the name line has a token; if its first token is
  one of the titles, the title is that token and the first name is the second token
  (which exists); otherwise the title is empty and the first name is the first token. In
  both cases the last name is the last token.
\<close>

theorem name_line_fields:
  assumes "extract_details ptext = Inr (c_title, c_firstname, c_lastname, c_email)"
  shows "name_tokens ptext \<noteq> [] \<and>
     (hd (name_tokens ptext) \<in> set TITLES \<longrightarrow>
        1 < length (name_tokens ptext) \<and> c_title = hd (name_tokens ptext) \<and>
        c_firstname = name_tokens ptext ! 1) \<and>
     (hd (name_tokens ptext) \<notin> set TITLES \<longrightarrow> c_title = [] \<and> c_firstname = hd (name_tokens ptext)) \<and>
     c_lastname = last (name_tokens ptext)"
  using assms py_split_on_not_Nil [of newline ptext]
  unfolding extract_details_def name_tokens_def Let_def py_getitem_0 py_getitem_1 py_getitem_minus1
  by (auto split: if_splits sum.splits prod.splits)

theorem name_line_fields_witness:
  "extract_details (pages sample_doc ! 0) = Inr (''Mr'', ''John'', ''Public'', ''john@example.org'') \<and>
   name_tokens (pages sample_doc ! 0) = [''Mr'', ''John'', ''Q'', ''Public''] \<and>
   hd (name_tokens (pages sample_doc ! 0)) \<in> set TITLES \<and>
   ''Public'' = last (name_tokens (pages sample_doc ! 0))"
proof -
  have h: "extract_details (pages sample_doc ! 0) = Inr (''Mr'', ''John'', ''Public'', ''john@example.org'')"
    by code_simp
  have t: "name_tokens (pages sample_doc ! 0) = [''Mr'', ''John'', ''Q'', ''Public'']" by code_simp
  have m: "''Mr'' \<in> set TITLES" by (simp add: TITLES_def)
  from name_line_fields [OF h] h t m show ?thesis by simp
qed

subsection \<open>C8: the details pattern\<close>

text \<open>
  C8 says that a title is a candidate's exactly when it ends with
  \<open>Candidate Details\<close> after a space, and that text after these words prevents it. The
  pattern has no \<open>$\<close>, and \<open>re.match\<close> anchors at the start only: text after the words is
  accepted.
\<close>

theorem details_trailing_text_matches:
  "is_candidate_details ''1. Candidate Details (copy)'' \<and>
   \<not> suffix '' Candidate Details'' ''1. Candidate Details (copy)''"
  by (simp add: is_candidate_details_def literal_def any_rest_def suffix_to_prefix newline_def)

text \<open>
  C8 as amended: a title is a candidate's exactly when the words, after a space, stand
  somewhere in it with no newline before them; whatever follows them is accepted.
\<close>

theorem candidate_details_match_iff:
  "is_candidate_details ttl \<longleftrightarrow>
     (\<exists>a b. ttl = a @ '' Candidate Details'' @ b \<and> newline \<notin> set a)"
  unfolding is_candidate_details_def dot_star_literal_iff any_rest_def by blast

subsection \<open>C9: the resumes do not overlap\<close>

text \<open>
  C9 says that no page of the source is in two resumes. A resume runs from the page of
  its bookmark to the page of the next top-level bookmark, and nothing makes these
  pages follow the outline order: on \<open>overlap_doc\<close> the first and the third resume share
  the pages 2, 3 and 4.
\<close>

theorem segments_overlap:
  "run [overlap_doc] = Inr overlap_result \<and>
   map snd (resume_files overlap_result) = [[0, 1, 2, 3, 4], [], [2, 3, 4, 5]] \<and>
   set (snd (resume_files overlap_result ! 0)) \<inter> set (snd (resume_files overlap_result ! 2)) = {2, 3, 4} \<and>
   \<not> distinct (emitted_pages overlap_result)"
proof -
  have 1: "run [overlap_doc] = Inr overlap_result" by code_simp
  have 2: "map snd (resume_files overlap_result) = [[0, 1, 2, 3, 4], [], [2, 3, 4, 5]]"
    by (simp add: overlap_result_def)
  have 3: "set (snd (resume_files overlap_result ! 0)) \<inter>
           set (snd (resume_files overlap_result ! 2)) = {2, 3, 4}"
    by (auto simp: overlap_result_def)
  have 4: "\<not> distinct (emitted_pages overlap_result)"
    by (simp add: overlap_result_def emitted_pages_def)
  from 1 2 3 4 show ?thesis by blast
qed

text \<open>
  C9 as amended: when the page numbers of the top-level bookmarks are not negative and do
  not decrease along the outline, the pages of all the resumes of a run over one
  document, in the order written, increase strictly; they are pages of the document, and
  no two resumes share a page. This holds of the resumes written by a run that an
  exception cuts short as well.
\<close>

theorem segments_disjoint_when_ordered:
  assumes rn: "outcome_state (run [doc]) = s'"
      and srt: "sorted (toplevel_pages (outlines doc))"
      and nn: "\<forall>p\<in>set (toplevel_pages (outlines doc)). 0 \<le> p"
  shows "sorted_wrt (<) (emitted_pages s') \<and>
         (\<forall>x\<in>set (emitted_pages s'). x < length (pages doc)) \<and>
         (\<forall>a b. a < b \<and> b < length (resume_files s') \<longrightarrow>
            set (snd (resume_files s' ! a)) \<inter> set (snd (resume_files s' ! b)) = {})"
proof -
  from rn have pi: "outcome_state (process_items doc (enumerate 0 (outlines doc)) init_state) = s'"
    by (auto simp: run_def process_pdf_def outcome_state_def split: sum.splits)
  have e0: "emitted_pages init_state = []" by (simp add: emitted_pages_def init_state_def)
  have 1: "sorted_wrt (<) (emitted_pages s')"
    using process_items_sorted [of 0 doc "outlines doc" init_state] pi srt nn e0 by simp
  have 2: "\<forall>x\<in>set (emitted_pages s'). x < length (pages doc)"
    using process_items_emitted_lt [of init_state doc "enumerate 0 (outlines doc)"] pi e0 by simp
  from 1 have "distinct (concat (map snd (resume_files s')))"
    unfolding emitted_pages_def by (simp add: strict_sorted_iff)
  then have 3: "\<forall>a b. a < b \<and> b < length (resume_files s') \<longrightarrow>
            set (snd (resume_files s' ! a)) \<inter> set (snd (resume_files s' ! b)) = {}"
    using distinct_concat_disjoint [of "map snd (resume_files s')"] by auto
  from 1 2 3 show ?thesis by blast
qed

theorem segments_disjoint_when_ordered_witness:
  "run [sample_doc] = Inr sample_result \<and>
   toplevel_pages (outlines sample_doc) = [0, 1, 3, 4, 5, 6, 8] \<and>
   emitted_pages sample_result = [1, 2, 6, 7] \<and>
   sorted_wrt (<) (emitted_pages sample_result) \<and>
   set (snd (resume_files sample_result ! 0)) \<inter> set (snd (resume_files sample_result ! 1)) = {}"
proof -
  have h: "run [sample_doc] = Inr sample_result" by code_simp
  then have h': "outcome_state (run [sample_doc]) = sample_result" by (simp add: outcome_state_def)
  have t: "toplevel_pages (outlines sample_doc) = [0, 1, 3, 4, 5, 6, 8]" by code_simp
  have e: "emitted_pages sample_result = [1, 2, 6, 7]" by code_simp
  have srt: "sorted (toplevel_pages (outlines sample_doc))" unfolding t by simp
  have nn: "\<forall>p\<in>set (toplevel_pages (outlines sample_doc)). 0 \<le> p" unfolding t by simp
  have len: "length (resume_files sample_result) = 2" by (simp add: sample_result_def)
  note r = segments_disjoint_when_ordered [OF h' srt nn]
  from r have 1: "sorted_wrt (<) (emitted_pages sample_result)" by blast
  from r len have 2: "set (snd (resume_files sample_result ! 0)) \<inter>
      set (snd (resume_files sample_result ! 1)) = {}" by simp
  from h t e 1 2 show ?thesis by blast
qed

subsection \<open>C10: a resume before the first candidate\<close>

text \<open>
  C10: when a resume marker stands in the first document before any candidate bookmark
  (and is not one itself), a run that ends without an exception has written a file for it
  under the id 0, that is \<open>output/resumes/0.pdf\<close>, and 0 is not the id of any row.
\<close>

theorem orphan_resume_gets_id_zero:
  assumes rn: "run (doc # docs) = Inr s'"
      and i: "i < length (outlines doc)"
      and d: "outlines doc ! i = Dest d"
      and ok: "is_resume_ok (title d)"
      and nod: "\<forall>it\<in>set (take (Suc i) (outlines doc)). \<not> is_details_item it"
  shows "(\<exists>seg. (resume_path 0, seg) \<in> set (resume_files s')) \<and>
         resume_path 0 = ''output/resumes/0.pdf'' \<and>
         0 \<notin> set (map row_id (csv_rows s'))"
proof -
  from rn obtain s1 where p1: "process_pdf doc init_state = Inr s1"
    and rest: "process_pdfs docs s1 = Inr s'"
    by (auto simp: run_def split: sum.splits)
  let ?pre = "enumerate 0 (take i (outlines doc))"
  let ?post = "enumerate (Suc i) (drop (Suc i) (outlines doc))"
  from p1 have "process_items doc (?pre @ (i, Dest d) # ?post) init_state = Inr s1"
    unfolding process_pdf_def using enumerate_split [OF i] d by simp
  then obtain sa sb where
    a: "process_items doc ?pre init_state = Inr sa" and
    b: "loop_body doc i (Dest d) sa = Inr sb" and
    c: "process_items doc ?post sb = Inr s1"
    by (auto simp: process_items_append split: sum.splits)
  have "set (take i (outlines doc)) \<subseteq> set (take (Suc i) (outlines doc))"
    by (rule set_take_subset_set_take) simp
  then have "filter is_details_item (take i (outlines doc)) = []"
    using nod by (auto simp: filter_empty_conv)
  with process_items_ids [OF a] have ca: "candidate_id sa = 0"
    by (simp add: init_state_def)
  have "take (Suc i) (outlines doc) = take i (outlines doc) @ [Dest d]"
    using i d by (simp add: take_Suc_conv_app_nth)
  then have "Dest d \<in> set (take (Suc i) (outlines doc))" by simp
  with nod have "\<not> is_details_item (Dest d)" by blast
  with loop_body_ids [OF b] ca have cb: "candidate_id sb = 0" by simp
  from loop_body_resume [OF b ok] cb obtain seg where
    "resume_files sb = resume_files sa @ [(resume_path 0, seg)]" by auto
  then have "(resume_path 0, seg) \<in> set (resume_files sb)" by simp
  moreover from process_items_files_prefix [OF c] process_pdfs_files_prefix [OF rest]
  have "set (resume_files sb) \<subseteq> set (resume_files s')" by auto
  ultimately have 1: "\<exists>seg. (resume_path 0, seg) \<in> set (resume_files s')" by blast
  have 2: "resume_path 0 = ''output/resumes/0.pdf''"
    by (simp add: resume_path_def OUTPUT_DIR_def str_int_def str_nat.simps digit_chars_def)
  from rn have "map row_id (csv_rows s') = [1..int (details_markers (doc # docs))]"
    using process_pdfs_ids [of "doc # docs" init_state s'] by (simp add: run_def init_state_def)
  then have 3: "0 \<notin> set (map row_id (csv_rows s'))" by simp
  from 1 2 3 show ?thesis by blast
qed

theorem orphan_resume_gets_id_zero_witness:
  "run [orphan_doc] = Inr orphan_result \<and>
   take (Suc 0) (outlines orphan_doc) = [Dest (Destination ''resume.pdf'' 0)] \<and>
   is_resume_ok ''resume.pdf'' \<and> \<not> is_candidate_details ''resume.pdf'' \<and>
   resume_files orphan_result = [(''output/resumes/0.pdf'', [0])] \<and>
   map row_id (csv_rows orphan_result) = [1] \<and>
   (\<exists>seg. (resume_path 0, seg) \<in> set (resume_files orphan_result)) \<and>
   0 \<notin> set (map row_id (csv_rows orphan_result))"
proof -
  have h: "run [orphan_doc] = Inr orphan_result" by code_simp
  have tk: "take (Suc 0) (outlines orphan_doc) = [Dest (Destination ''resume.pdf'' 0)]"
    by (simp add: orphan_doc_def)
  have i: "0 < length (outlines orphan_doc)" by (simp add: orphan_doc_def)
  have d: "outlines orphan_doc ! 0 = Dest (Destination ''resume.pdf'' 0)"
    by (simp add: orphan_doc_def)
  have ok: "is_resume_ok ''resume.pdf''" by code_simp
  have nd: "\<not> is_candidate_details ''resume.pdf''" by code_simp
  have nod: "\<forall>it\<in>set (take (Suc 0) (outlines orphan_doc)). \<not> is_details_item it"
    unfolding tk using nd by simp
  have f: "resume_files orphan_result = [(''output/resumes/0.pdf'', [0])]"
    by (simp add: orphan_result_def)
  have r: "map row_id (csv_rows orphan_result) = [1]" by (simp add: orphan_result_def)
  have ok': "is_resume_ok (title (Destination ''resume.pdf'' 0))" using ok by simp
  note w = orphan_resume_gets_id_zero [OF h i d ok' nod]
  from w have 1: "\<exists>seg. (resume_path 0, seg) \<in> set (resume_files orphan_result)" by blast
  from w have 2: "0 \<notin> set (map row_id (csv_rows orphan_result))" by blast
  from h tk ok nd f r 1 2 show ?thesis by blast
qed

end
